theory Spec2Isabelle
  imports Complex_Main "HOL-Library.Multiset" "HOL-Library.Log_Nat"
begin

section \<open>The data of \<open>compo.py\<close>\<close>

text \<open>
  The exceptions that the statements of \<open>compo.py\<close> can raise. A function that may raise
  returns \<open>error + 'a\<close>, with \<open>Inl\<close> for the exception.
\<close>

datatype error =
  TypeError | KeyError | ValueError | StatisticsError | IndexError | ZeroDivisionError
  | OverflowError

text \<open>
  A rating is the dict with the keys \<open>entryUUID\<close>, \<open>voteParam\<close> and \<open>rating\<close>; two ratings are
  equal as Python dicts are, when the three values are. A vote is the dict with \<open>userID\<close> and
  \<open>ratings\<close>; the keys \<open>minimum\<close> and \<open>maximum\<close> are absent until the ranking writes them.
\<close>

record rating =
  entryUUID :: string
  voteParam :: string
  rating :: int

record vote =
  userID :: int
  ratings :: "rating list"
  minimum :: "int option"
  maximum :: "int option"

text \<open>
  The values stored in an entry dict: \<open>None\<close>, integers, strings, byte strings and floats.
  A float is given by the rational number it denotes; the float operations round their
  results to the nearest double (\<open>round_double\<close> below).
\<close>

datatype pyval = PNone | PInt int | PStr string | PBytes "nat list" | PFloat rat

type_synonym entry = "string \<rightharpoonup> pyval"

text \<open>A week dict; the key \<open>votes\<close> may be absent, the other keys are always written.\<close>

record week =
  theme :: string
  date :: string
  submissionsOpen :: bool
  votingOpen :: bool
  entries :: "entry list"
  votes :: "vote list option"

text \<open>The two records that \<open>verify_votes\<close> hands to \<open>logging.warning\<close> for a rejected rating.\<close>

datatype log_record = FraudDetected | SusRating rating

section \<open>Python floats\<close>

text \<open>
  A Python float is an IEEE 754 double. \<open>binade x\<close> is the exponent \<open>e\<close> with
  \<open>2^e \<le> |x| < 2^(e+1)\<close>, for \<open>x \<noteq> 0\<close>. The doubles near \<open>x\<close> are the multiples of
  \<open>2^(e - 52)\<close> (of \<open>2^(-1074)\<close> below the normal range), and an operation returns the one
  nearest to its exact result, the one with the even multiplier when two are equally
  near. Results beyond the largest double (infinities) are not modelled: they need a
  rating beyond \<open>10^307\<close>.
\<close>

definition binade :: "rat \<Rightarrow> int" where
  "binade x =
     (let (n, d) = quotient_of \<bar>x\<bar>; k = bitlen n - bitlen d
      in if 2 powi k \<le> \<bar>x\<bar> then k else k - 1)"

definition round_half_even :: "rat \<Rightarrow> int" where
  "round_half_even y =
     (let f = \<lfloor>y\<rfloor>; r = y - of_int f
      in if r < 1 / 2 then f else if 1 / 2 < r then f + 1 else if even f then f else f + 1)"

definition round_double :: "rat \<Rightarrow> rat" where
  "round_double x =
     (if x = 0 then 0
      else (let e = max (binade x) (- 1022); u = 2 powi (e - 52)
            in of_int (round_half_even (x / u)) * u))"

text \<open>\<open>float(i)\<close> of an int: the nearest double, \<open>OverflowError\<close> when \<open>i\<close> is too large.\<close>

definition float_of_int :: "int \<Rightarrow> error + rat" where
  "float_of_int i =
     (if 2 powi 1024 \<le> \<bar>round_double (of_int i)\<bar> then Inl OverflowError
      else Inr (round_double (of_int i)))"

text \<open>
  The float division of \<open>normalized /= ...\<close> followed by the float multiplication of
  \<open>normalized *= 5\<close>, each rounded.
\<close>

definition float_quot5 :: "rat \<Rightarrow> rat \<Rightarrow> rat" where
  "float_quot5 a b = round_double (round_double (a / b) * 5)"

section \<open>\<open>verify_votes\<close>\<close>

text \<open>
  \<open>list.remove(x)\<close> deletes the first element equal to \<open>x\<close> and raises \<open>ValueError\<close> when
  there is none.
\<close>

fun list_remove :: "'a \<Rightarrow> 'a list \<Rightarrow> error + 'a list" where
  "list_remove x [] = Inl ValueError"
| "list_remove x (y # ys) =
     (if y = x then Inr ys
      else (case list_remove x ys of Inl e \<Rightarrow> Inl e | Inr zs \<Rightarrow> Inr (y # zs)))"

type_synonym userVotes = "(int \<times> string \<times> string) \<rightharpoonup> bool"

lemma list_remove_length:
  "list_remove x xs = Inr ys \<Longrightarrow> Suc (length ys) = length xs"
  by (induction xs arbitrary: ys) (auto split: if_splits sum.splits)

text \<open>
  The inner loop \<open>for r in v["ratings"]\<close> of \<open>verify_votes\<close>. Python's list iterator keeps
  an index \<open>i\<close> into the list object: each step reads \<open>rs[i]\<close> when \<open>i < len(rs)\<close>, advances
  \<open>i\<close> and runs the body, and the body's \<open>v["ratings"].remove(r)\<close> changes the list that
  the iterator reads.
\<close>

function ratings_loop ::
  "int \<Rightarrow> nat \<Rightarrow> rating list \<Rightarrow> userVotes \<Rightarrow> log_record list
     \<Rightarrow> error + (rating list \<times> userVotes \<times> log_record list)" where
  "ratings_loop uid i rs uv lg =
     (if i < length rs then
        (let r = rs ! i in
         if uv (uid, entryUUID r, voteParam r) = None \<and> rating r \<le> 5 \<and> rating r \<ge> 0 then
           (if rating r = 0
            then ratings_loop uid (Suc i) rs (uv((uid, entryUUID r, voteParam r) \<mapsto> False)) lg
            else ratings_loop uid (Suc i) rs (uv((uid, entryUUID r, voteParam r) \<mapsto> True)) lg)
         else
           (case list_remove r rs of
              Inl e \<Rightarrow> Inl e
            | Inr rs' \<Rightarrow> ratings_loop uid (Suc i) rs' uv (lg @ [FraudDetected, SusRating r])))
      else Inr (rs, uv, lg))"
  by pat_completeness auto
termination
  by (relation "measure (\<lambda>(uid, i, rs, uv, lg). length rs - i)")
     (auto dest: list_remove_length)

declare ratings_loop.simps [simp del]

text \<open>The outer loop \<open>for v in week["votes"]\<close>; \<open>userVotes\<close> and the log run through all votes.\<close>

fun votes_loop ::
  "vote list \<Rightarrow> userVotes \<Rightarrow> log_record list
     \<Rightarrow> error + (vote list \<times> userVotes \<times> log_record list)" where
  "votes_loop [] uv lg = Inr ([], uv, lg)"
| "votes_loop (v # vs) uv lg =
     (case ratings_loop (userID v) 0 (ratings v) uv lg of
        Inl e \<Rightarrow> Inl e
      | Inr (rs', uv', lg') \<Rightarrow>
          (case votes_loop vs uv' lg' of
             Inl e \<Rightarrow> Inl e
           | Inr (vs', uv'', lg'') \<Rightarrow> Inr (v\<lparr>ratings := rs'\<rparr> # vs', uv'', lg'')))"

text \<open>
  Python checks no argument type: \<open>verify_votes\<close> is called with a week dict, and by
  \<open>get_ranked_entrant_list\<close> with a bool. The test \<open>"votes" in week\<close> raises \<open>TypeError\<close>
  on a bool. The result is the week as the call leaves it and the records it logged.
\<close>

datatype pyarg = PyBool bool | PyWeek week

fun verify_votes :: "pyarg \<Rightarrow> error + (week \<times> log_record list)" where
  "verify_votes (PyBool b) = Inl TypeError"
| "verify_votes (PyWeek week) =
     (let week1 = (if votes week = None then week\<lparr>votes := Some []\<rparr> else week) in
      case votes week1 of
        None \<Rightarrow> Inl KeyError
      | Some vs \<Rightarrow>
          (case votes_loop vs Map.empty [] of
             Inl e \<Rightarrow> Inl e
           | Inr (vs', uv, lg) \<Rightarrow> Inr (week1\<lparr>votes := Some vs'\<rparr>, lg)))"

text \<open>
  What the log holds for a list of rejected ratings, two records each, and the votes of a
  week when the key is read with a default.
\<close>

definition fraud_log :: "rating list \<Rightarrow> log_record list" where
  "fraud_log removed = concat (map (\<lambda>r. [FraudDetected, SusRating r]) removed)"

definition week_votes :: "week \<Rightarrow> vote list" where
  "week_votes week = (case votes week of None \<Rightarrow> [] | Some vs \<Rightarrow> vs)"

section \<open>The weeks and \<open>entry_valid\<close>\<close>

text \<open>
  The module's state: the globals \<open>current_week\<close> and \<open>next_week\<close> (\<open>None\<close> until loaded),
  what the two pickle files hold (\<open>None\<close>: the file does not exist, so that \<open>open\<close> raises
  \<open>FileNotFoundError\<close>), and the records sent to \<open>logging\<close>.
\<close>

record state =
  current_week :: "week option"
  next_week :: "week option"
  current_pickle :: "week option"
  next_pickle :: "week option"
  log :: "log_record list"

definition blank_week :: "bool \<Rightarrow> week" where
  "blank_week open_submissions =
     \<lparr>theme = ''Week XYZ: Fill this in by hand!'', date = ''Month day'th 20XX'',
      submissionsOpen = open_submissions, votingOpen = True, entries = [], votes = None\<rparr>"

text \<open>
  \<open>get_week\<close> fills both globals where they are \<open>None\<close>, from the pickle file or with a new
  dict, and returns the week asked for. The returned dict is the global itself: what the
  caller writes into it is written into the state (\<open>put_week\<close>).
\<close>

definition get_week :: "bool \<Rightarrow> state \<Rightarrow> week \<times> state" where
  "get_week get_next_week st =
     (let cw = (case current_week st of
                  Some w \<Rightarrow> w
                | None \<Rightarrow> (case current_pickle st of Some w \<Rightarrow> w | None \<Rightarrow> blank_week False));
          nw = (case next_week st of
                  Some w \<Rightarrow> w
                | None \<Rightarrow> (case next_pickle st of Some w \<Rightarrow> w | None \<Rightarrow> blank_week True))
      in (if get_next_week then nw else cw, st\<lparr>current_week := Some cw, next_week := Some nw\<rparr>))"

definition put_week :: "bool \<Rightarrow> week \<Rightarrow> state \<Rightarrow> state" where
  "put_week get_next_week w st =
     (if get_next_week then st\<lparr>next_week := Some w\<rparr> else st\<lparr>current_week := Some w\<rparr>)"

definition requirements :: "string list" where
  "requirements =
     [''uuid'', ''pdf'', ''pdfFilename'', ''mp3'', ''mp3Format'', ''mp3Filename'',
      ''entryName'', ''entrantName'']"

text \<open>
  \<open>entry_valid\<close>: the first loop returns \<open>False\<close> at a key that is not in the dict, the
  second at a blob that \<open>is None\<close>.
\<close>

definition entry_valid :: "entry \<Rightarrow> bool" where
  "entry_valid entry =
     (if list_ex (\<lambda>requirement. entry requirement = None) requirements then False
      else if list_ex (\<lambda>param. entry param = Some PNone) [''mp3'', ''pdf''] then False
      else True)"

fun count_loop :: "entry list \<Rightarrow> nat \<Rightarrow> nat" where
  "count_loop [] n = n"
| "count_loop (e # es) n = count_loop es (if entry_valid e then n + 1 else n)"

definition count_valid_entries :: "bool \<Rightarrow> state \<Rightarrow> nat \<times> state" where
  "count_valid_entries which_week st =
     (let (week, st1) = get_week which_week st in (count_loop (entries week) 0, st1))"

section \<open>\<open>get_ranked_entrant_list\<close>\<close>

subsection \<open>Rating extents and normalized scores\<close>

text \<open>The scan of one ballot for \<open>(minimum, maximum)\<close>, which start at \<open>(5, 1)\<close>.\<close>

fun extent_loop :: "rating list \<Rightarrow> int \<times> int \<Rightarrow> int \<times> int" where
  "extent_loop [] (mn, mx) = (mn, mx)"
| "extent_loop (r # rs) (mn, mx) =
     (if rating r = 0 then extent_loop rs (mn, mx)
      else
        (let mx1 = (if rating r > mx then rating r else mx);
             mn1 = (if rating r < mn then rating r else mn)
         in extent_loop rs (mn1, mx1)))"

definition get_extents :: "vote \<Rightarrow> vote" where
  "get_extents v =
     (let (mn, mx) = extent_loop (ratings v) (5, 1)
      in v\<lparr>minimum := Some mn, maximum := Some mx\<rparr>)"

text \<open>
  The three statements that compute \<open>normalized\<close> for a non-zero rating: the two
  differences are ints and are converted by \<open>float(...)\<close>, the float division raises
  \<open>ZeroDivisionError\<close> at a zero denominator, and the quotient is multiplied by 5.
\<close>

definition normalized :: "vote \<Rightarrow> rating \<Rightarrow> error + rat" where
  "normalized v r =
     (case minimum v of
        None \<Rightarrow> Inl KeyError
      | Some mn \<Rightarrow>
          (case float_of_int (rating r - (mn - 1)) of
             Inl x \<Rightarrow> Inl x
           | Inr a \<Rightarrow>
               (case maximum v of
                  None \<Rightarrow> Inl KeyError
                | Some mx \<Rightarrow>
                    (case float_of_int (mx - (mn - 1)) of
                       Inl x \<Rightarrow> Inl x
                     | Inr b \<Rightarrow>
                         (if b = 0 then Inl ZeroDivisionError
                          else Inr (float_quot5 a b))))))"

type_synonym scores = "string \<rightharpoonup> rat list"

fun score_ratings :: "vote \<Rightarrow> rating list \<Rightarrow> scores \<Rightarrow> error + scores" where
  "score_ratings v [] scores = Inr scores"
| "score_ratings v (r # rs) scores =
     (let scores1 = (if scores (entryUUID r) = None then scores(entryUUID r \<mapsto> []) else scores)
      in if rating r \<noteq> 0 then
           (case normalized v r of
              Inl e \<Rightarrow> Inl e
            | Inr n \<Rightarrow>
                (case scores1 (entryUUID r) of
                   None \<Rightarrow> Inl KeyError
                 | Some l \<Rightarrow> score_ratings v rs (scores1(entryUUID r \<mapsto> l @ [n]))))
         else score_ratings v rs scores1)"

fun score_votes :: "vote list \<Rightarrow> scores \<Rightarrow> error + scores" where
  "score_votes [] scores = Inr scores"
| "score_votes (v # vs) scores =
     (case score_ratings v (ratings v) scores of
        Inl e \<Rightarrow> Inl e
      | Inr scores1 \<Rightarrow> score_votes vs scores1)"

subsection \<open>Final scores and the entry pool\<close>

text \<open>
  \<open>statistics.mean\<close> raises \<open>StatisticsError\<close> on an empty list. It adds the floats as
  exact fractions, divides the exact sum by the count and converts the quotient to the
  nearest float.
\<close>

definition mean :: "rat list \<Rightarrow> error + rat" where
  "mean xs =
     (if xs = [] then Inl StatisticsError
      else Inr (round_double (sum_list xs / of_nat (length xs))))"

text \<open>
  \<open>e["uuid"] in scores\<close>: the keys of \<open>scores\<close> are the strings \<open>r["entryUUID"]\<close>, and a
  value that is not a string equals none of them.
\<close>

definition scores_get :: "scores \<Rightarrow> pyval \<Rightarrow> rat list option" where
  "scores_get scores k = (case k of PStr s \<Rightarrow> scores s | _ \<Rightarrow> None)"

text \<open>
  \<open>entry_pool\<close> and \<open>ranked_entries\<close> hold references to the dicts of \<open>week["entries"]\<close>: a
  reference is the position of the dict in that list, and the list is the store. The loop
  over \<open>week["entries"]\<close> runs over the positions; an exception leaves the entries written
  so far.
\<close>

fun write_scores ::
  "scores \<Rightarrow> nat list \<Rightarrow> entry list \<Rightarrow> nat list \<Rightarrow> (error + nat list) \<times> entry list" where
  "write_scores scores [] es entry_pool = (Inr entry_pool, es)"
| "write_scores scores (i # is) es entry_pool =
     (let e = es ! i in
      if entry_valid e then
        (case e ''uuid'' of
           None \<Rightarrow> (Inl KeyError, es)
         | Some u \<Rightarrow>
             (case scores_get scores u of
                Some l \<Rightarrow>
                  (case mean l of
                     Inl x \<Rightarrow> (Inl x, es)
                   | Inr m \<Rightarrow>
                       write_scores scores is (es[i := e(''voteScore'' \<mapsto> PFloat m)])
                         (entry_pool @ [i]))
              | None \<Rightarrow>
                  write_scores scores is (es[i := e(''voteScore'' \<mapsto> PInt 0)])
                    (entry_pool @ [i])))
      else write_scores scores is es entry_pool)"

subsection \<open>The elimination loop\<close>

text \<open>
  The sort key \<open>e["voteScore"]\<close>. The loop before wrote it, as a float or as the int \<open>0\<close>;
  Python compares the two as numbers. A key of another type has no order with a number.
\<close>

definition vote_score :: "entry \<Rightarrow> error + rat" where
  "vote_score e =
     (case e ''voteScore'' of
        None \<Rightarrow> Inl KeyError
      | Some (PFloat x) \<Rightarrow> Inr x
      | Some (PInt n) \<Rightarrow> Inr (of_int n)
      | Some _ \<Rightarrow> Inl TypeError)"

text \<open>
  \<open>sorted(entry_pool, key=...)\<close> computes the key of every element, then sorts the
  elements by their keys, stably (\<open>sort_key\<close> is the stable insertion sort).
\<close>

fun sort_keys :: "entry list \<Rightarrow> nat list \<Rightarrow> error + rat list" where
  "sort_keys es [] = Inr []"
| "sort_keys es (i # is) =
     (case vote_score (es ! i) of
        Inl x \<Rightarrow> Inl x
      | Inr k \<Rightarrow> (case sort_keys es is of Inl x \<Rightarrow> Inl x | Inr ks \<Rightarrow> Inr (k # ks)))"

definition sorted_by_voteScore :: "entry list \<Rightarrow> nat list \<Rightarrow> error + nat list" where
  "sorted_by_voteScore es entry_pool =
     (case sort_keys es entry_pool of
        Inl x \<Rightarrow> Inl x
      | Inr ks \<Rightarrow> Inr (map snd (sort_key fst (zip ks entry_pool))))"

text \<open>The loop over one ballot's ratings that sums \<open>scoreA\<close> and \<open>scoreB\<close>.\<close>

fun raw_sums :: "entry \<Rightarrow> entry \<Rightarrow> rating list \<Rightarrow> int \<times> int \<Rightarrow> error + (int \<times> int)" where
  "raw_sums entryA entryB [] (scoreA, scoreB) = Inr (scoreA, scoreB)"
| "raw_sums entryA entryB (r # rs) (scoreA, scoreB) =
     (case entryA ''uuid'' of
        None \<Rightarrow> Inl KeyError
      | Some ua \<Rightarrow>
          (if PStr (entryUUID r) = ua then raw_sums entryA entryB rs (scoreA + rating r, scoreB)
           else
             (case entryB ''uuid'' of
                None \<Rightarrow> Inl KeyError
              | Some ub \<Rightarrow>
                  (if PStr (entryUUID r) = ub
                   then raw_sums entryA entryB rs (scoreA, scoreB + rating r)
                   else raw_sums entryA entryB rs (scoreA, scoreB)))))"

text \<open>The loop over the ballots that counts \<open>preferEntryA\<close> and \<open>preferEntryB\<close>.\<close>

fun count_prefs :: "entry \<Rightarrow> entry \<Rightarrow> vote list \<Rightarrow> nat \<times> nat \<Rightarrow> error + (nat \<times> nat)" where
  "count_prefs entryA entryB [] (preferA, preferB) = Inr (preferA, preferB)"
| "count_prefs entryA entryB (v # vs) (preferA, preferB) =
     (case raw_sums entryA entryB (ratings v) (0, 0) of
        Inl x \<Rightarrow> Inl x
      | Inr (scoreA, scoreB) \<Rightarrow>
          (if scoreA > scoreB then count_prefs entryA entryB vs (preferA + 1, preferB)
           else if scoreB > scoreA then count_prefs entryA entryB vs (preferA, preferB + 1)
           else count_prefs entryA entryB vs (preferA, preferB)))"

text \<open>
  One iteration of \<open>while len(entry_pool) > 1\<close>: the result is the pool and
  \<open>ranked_entries\<close> after it. \<open>entry_pool.pop(0)\<close> takes \<open>entryA\<close> out of the sorted pool,
  \<open>entry_pool.pop(1)\<close> takes \<open>entryB\<close>.
\<close>

definition elim_step ::
  "entry list \<Rightarrow> vote list \<Rightarrow> nat list \<Rightarrow> nat list \<Rightarrow> error + (nat list \<times> nat list)" where
  "elim_step es vs entry_pool ranked_entries =
     (case sorted_by_voteScore es entry_pool of
        Inl x \<Rightarrow> Inl x
      | Inr pool \<Rightarrow>
          (case pool of
             a # b # rest \<Rightarrow>
               (case count_prefs (es ! a) (es ! b) vs (0, 0) of
                  Inl x \<Rightarrow> Inl x
                | Inr (preferA, preferB) \<Rightarrow>
                    (if preferA \<ge> preferB then Inr (b # rest, ranked_entries @ [a])
                     else Inr (a # rest, ranked_entries @ [b])))
           | _ \<Rightarrow> Inl IndexError))"

lemma sort_keys_length: "sort_keys es is = Inr ks \<Longrightarrow> length ks = length is"
  by (induction "is" arbitrary: ks) (auto split: sum.splits)

lemma sorted_by_voteScore_length:
  "sorted_by_voteScore es entry_pool = Inr pool \<Longrightarrow> length pool = length entry_pool"
  by (auto simp: sorted_by_voteScore_def dest: sort_keys_length split: sum.splits)

lemma elim_step_length:
  "elim_step es vs entry_pool ranked_entries = Inr (pool1, ranked1) \<Longrightarrow>
     Suc (length pool1) = length entry_pool \<and> length ranked1 = Suc (length ranked_entries)"
  by (auto simp: elim_step_def dest!: sorted_by_voteScore_length
           split: sum.splits list.splits if_splits prod.splits)

function elim_loop ::
  "entry list \<Rightarrow> vote list \<Rightarrow> nat list \<Rightarrow> nat list \<Rightarrow> error + (nat list \<times> nat list)" where
  "elim_loop es vs entry_pool ranked_entries =
     (if length entry_pool > 1 then
        (case elim_step es vs entry_pool ranked_entries of
           Inl x \<Rightarrow> Inl x
         | Inr (pool1, ranked1) \<Rightarrow> elim_loop es vs pool1 ranked1)
      else Inr (entry_pool, ranked_entries))"
  by pat_completeness auto
termination
  by (relation "measure (\<lambda>(es, vs, entry_pool, ranked_entries). length entry_pool)")
     (auto dest: elim_step_length)

declare elim_loop.simps [simp del]

text \<open>The number of iterations that the loop runs, an exception ending it.\<close>

function elim_iterations :: "entry list \<Rightarrow> vote list \<Rightarrow> nat list \<Rightarrow> nat list \<Rightarrow> nat" where
  "elim_iterations es vs entry_pool ranked_entries =
     (if length entry_pool > 1 then
        (case elim_step es vs entry_pool ranked_entries of
           Inl x \<Rightarrow> 0
         | Inr (pool1, ranked1) \<Rightarrow> Suc (elim_iterations es vs pool1 ranked1))
      else 0)"
  by pat_completeness auto
termination
  by (relation "measure (\<lambda>(es, vs, entry_pool, ranked_entries). length entry_pool)")
     (auto dest: elim_step_length)

declare elim_iterations.simps [simp del]

subsection \<open>Placements and the whole function\<close>

text \<open>\<open>for place, e in enumerate(reversed(ranked_entries))\<close>, from \<open>place = 0\<close>.\<close>

fun set_placements :: "nat list \<Rightarrow> nat \<Rightarrow> entry list \<Rightarrow> entry list" where
  "set_placements [] place es = es"
| "set_placements (i # is) place es =
     set_placements is (place + 1) (es[i := (es ! i)(''votePlacement'' \<mapsto> PInt (int place + 1))])"

text \<open>
  The statements of \<open>get_ranked_entrant_list\<close> after the call of \<open>verify_votes\<close>, on the
  dict \<open>week\<close>: the result is the returned list or the exception, and the week as the
  statements leave it.
\<close>

definition rank_week :: "week \<Rightarrow> (error + entry list) \<times> week" where
  "rank_week week =
     (case votes week of
        None \<Rightarrow> (Inl KeyError, week)
      | Some vs \<Rightarrow>
          (let vs1 = map get_extents vs; week1 = week\<lparr>votes := Some vs1\<rparr> in
           case score_votes vs1 Map.empty of
             Inl x \<Rightarrow> (Inl x, week1)
           | Inr scores \<Rightarrow>
               (case write_scores scores [0..<length (entries week1)] (entries week1) [] of
                  (Inl x, es1) \<Rightarrow> (Inl x, week1\<lparr>entries := es1\<rparr>)
                | (Inr entry_pool, es1) \<Rightarrow>
                    (case elim_loop es1 vs1 entry_pool [] of
                       Inl x \<Rightarrow> (Inl x, week1\<lparr>entries := es1\<rparr>)
                     | Inr (pool1, ranked) \<Rightarrow>
                         (case pool1 of
                            [] \<Rightarrow> (Inl IndexError, week1\<lparr>entries := es1\<rparr>)
                          | p # rest \<Rightarrow>
                              (let ranked1 = p # ranked;
                                   es2 = set_placements (rev ranked1) 0 es1
                               in (Inr (map (nth es2) (rev ranked1)),
                                   week1\<lparr>entries := es2\<rparr>)))))))"

text \<open>
  \<open>get_ranked_entrant_list(which_week)\<close>: line 222 is \<open>verify_votes(which_week)\<close>, with the
  bool, not with \<open>week\<close>. The result is the returned list or the exception, and the state
  as the call leaves it.
\<close>

definition get_ranked_entrant_list :: "bool \<Rightarrow> state \<Rightarrow> (error + entry list) \<times> state" where
  "get_ranked_entrant_list which_week st =
     (let (week, st1) = get_week which_week st in
      case verify_votes (PyBool which_week) of
        Inl x \<Rightarrow> (Inl x, st1)
      | Inr (w, lg) \<Rightarrow>
          (let (res, week1) = rank_week week
           in (res, put_week which_week week1 (st1\<lparr>log := log st1 @ lg\<rparr>))))"

subsection \<open>Notions for stating properties of the loop\<close>

text \<open>
  An entry is scored when its \<open>voteScore\<close> is a number, and \<open>score_key\<close> is that number for
  the entry at a position. In the words of the specification: the raw sum of a ballot for
  an entry identifier, and the number of ballots whose raw sum is strictly greater for one
  identifier than for another.
\<close>

definition scored :: "entry \<Rightarrow> bool" where
  "scored e = (case vote_score e of Inr k \<Rightarrow> True | Inl x \<Rightarrow> False)"

definition score_key :: "entry list \<Rightarrow> nat \<Rightarrow> rat" where
  "score_key es i = (case vote_score (es ! i) of Inr k \<Rightarrow> k | Inl x \<Rightarrow> 0)"

definition raw_sum :: "string \<Rightarrow> vote \<Rightarrow> int" where
  "raw_sum u v = sum_list (map rating (filter (\<lambda>r. entryUUID r = u) (ratings v)))"

definition prefers :: "string \<Rightarrow> string \<Rightarrow> vote list \<Rightarrow> nat" where
  "prefers u w vs = length (filter (\<lambda>v. raw_sum u v > raw_sum w v) vs)"

section \<open>Concrete weeks\<close>

text \<open>A complete entry, as the upload handling leaves it, and one ballot that rates it 5.\<close>

definition entry_x :: entry where
  "entry_x =
     [''uuid'' \<mapsto> PStr ''x'', ''pdf'' \<mapsto> PBytes [37, 80], ''pdfFilename'' \<mapsto> PStr ''x.pdf'',
      ''mp3'' \<mapsto> PBytes [73, 68], ''mp3Format'' \<mapsto> PStr ''mp3'',
      ''mp3Filename'' \<mapsto> PStr ''x.mp3'', ''entryName'' \<mapsto> PStr ''Song X'',
      ''entrantName'' \<mapsto> PStr ''Xena'', ''discordID'' \<mapsto> PNone]"

definition entry_empty_blobs :: entry where
  "entry_empty_blobs = entry_x(''pdf'' \<mapsto> PBytes [], ''mp3'' \<mapsto> PBytes [])"

definition ballot :: "rating list \<Rightarrow> vote" where
  "ballot rs = \<lparr>userID = 1, ratings = rs, minimum = None, maximum = None\<rparr>"

definition rate :: "string \<Rightarrow> int \<Rightarrow> rating" where
  "rate u n = \<lparr>entryUUID = u, voteParam = ''overall'', rating = n\<rparr>"

definition week_of :: "entry list \<Rightarrow> vote list \<Rightarrow> week" where
  "week_of es vs = (blank_week False)\<lparr>entries := es, votes := Some vs\<rparr>"

definition state_of :: "week \<Rightarrow> state" where
  "state_of w =
     \<lparr>current_week = Some w, next_week = Some (blank_week True),
      current_pickle = None, next_pickle = None, log = []\<rparr>"

text \<open>
  A second entry, two ballots that disagree on the two entries, and the entries with the
  scores that the two ballots give them.
\<close>

definition entry_y :: entry where
  "entry_y = entry_x(''uuid'' \<mapsto> PStr ''y'', ''entryName'' \<mapsto> PStr ''Song Y'')"

definition votes_tie :: "vote list" where
  "votes_tie = [ballot [rate ''x'' 4, rate ''y'' 2], (ballot [rate ''x'' 1, rate ''y'' 5])\<lparr>userID := 2\<rparr>]"

definition scored_x :: entry where
  "scored_x = entry_x(''voteScore'' \<mapsto> PFloat 3)"

definition scored_y :: entry where
  "scored_y = entry_y(''voteScore'' \<mapsto> PFloat (3752999689475413 / 1125899906842624))"

section \<open>Properties of \<open>entry_valid\<close> and \<open>count_valid_entries\<close>\<close>

lemma get_week_state_of: "get_week False (state_of w) = (w, state_of w)"
  by (simp add: get_week_def state_of_def)

lemma count_loop_filter: "count_loop es n = n + length (filter entry_valid es)"
  by (induction es arbitrary: n) auto

lemma list_ex_requirements:
  "list_ex P requirements \<longleftrightarrow>
     P ''uuid'' \<or> P ''pdf'' \<or> P ''pdfFilename'' \<or> P ''mp3'' \<or> P ''mp3Format''
     \<or> P ''mp3Filename'' \<or> P ''entryName'' \<or> P ''entrantName''"
  unfolding requirements_def list_ex_Cons_iff list_ex_Nil_iff by blast

lemma two_loops_prop:
  "(if a \<or> b \<or> c \<or> d \<or> f \<or> g \<or> h \<or> i then False
    else if m \<or> p \<or> False then False else True) =
   (\<not> a \<and> \<not> b \<and> \<not> c \<and> \<not> d \<and> \<not> f \<and> \<not> g \<and> \<not> h \<and> \<not> i \<and> \<not> p \<and> \<not> m)"
  by auto

lemma entry_valid_keys:
  "entry_valid e \<longleftrightarrow>
      e ''uuid'' \<noteq> None \<and> e ''pdf'' \<noteq> None \<and> e ''pdfFilename'' \<noteq> None \<and> e ''mp3'' \<noteq> None
      \<and> e ''mp3Format'' \<noteq> None \<and> e ''mp3Filename'' \<noteq> None \<and> e ''entryName'' \<noteq> None
      \<and> e ''entrantName'' \<noteq> None \<and> e ''pdf'' \<noteq> Some PNone \<and> e ''mp3'' \<noteq> Some PNone"
  unfolding entry_valid_def list_ex_requirements list_ex_Cons_iff list_ex_Nil_iff
  by (rule two_loops_prop)

lemma entry_x_valid: "entry_valid entry_x"
  by (simp add: entry_valid_keys entry_x_def)

lemma entry_x_uuid: "entry_x ''uuid'' = Some (PStr ''x'')"
  by (simp add: entry_x_def)

text \<open>
  C7, as the claim states it, fails: an entry whose document and audio blobs are the empty
  byte string is valid for \<open>entry_valid\<close>, which tests the blobs against \<open>None\<close> only.
\<close>

theorem entry_valid_empty_blobs:
  "entry_valid entry_empty_blobs \<and> entry_empty_blobs ''pdf'' = Some (PBytes [])
   \<and> entry_empty_blobs ''mp3'' = Some (PBytes [])"
  by (simp add: entry_valid_keys entry_x_def entry_empty_blobs_def)

text \<open>
  C7, amended: \<open>entry_valid\<close> returns \<open>True\<close> if and only if the eight keys \<open>uuid\<close>, \<open>pdf\<close>,
  \<open>pdfFilename\<close>, \<open>mp3\<close>, \<open>mp3Format\<close>, \<open>mp3Filename\<close>, \<open>entryName\<close> and \<open>entrantName\<close> are
  in the dict and neither \<open>pdf\<close> nor \<open>mp3\<close> is \<open>None\<close> (an empty blob is accepted);
  \<open>count_valid_entries\<close> returns the number of entries of the requested week for which
  \<open>entry_valid\<close> holds.
\<close>

theorem entry_valid_iff_keys:
  "(entry_valid e \<longleftrightarrow>
      e ''uuid'' \<noteq> None \<and> e ''pdf'' \<noteq> None \<and> e ''pdfFilename'' \<noteq> None \<and> e ''mp3'' \<noteq> None
      \<and> e ''mp3Format'' \<noteq> None \<and> e ''mp3Filename'' \<noteq> None \<and> e ''entryName'' \<noteq> None
      \<and> e ''entrantName'' \<noteq> None \<and> e ''pdf'' \<noteq> Some PNone \<and> e ''mp3'' \<noteq> Some PNone)
   \<and> count_valid_entries which_week st =
       (length (filter entry_valid (entries (fst (get_week which_week st)))),
        snd (get_week which_week st))"
proof
  show "entry_valid e \<longleftrightarrow>
      e ''uuid'' \<noteq> None \<and> e ''pdf'' \<noteq> None \<and> e ''pdfFilename'' \<noteq> None \<and> e ''mp3'' \<noteq> None
      \<and> e ''mp3Format'' \<noteq> None \<and> e ''mp3Filename'' \<noteq> None \<and> e ''entryName'' \<noteq> None
      \<and> e ''entrantName'' \<noteq> None \<and> e ''pdf'' \<noteq> Some PNone \<and> e ''mp3'' \<noteq> Some PNone"
    by (rule entry_valid_keys)
  show "count_valid_entries which_week st =
       (length (filter entry_valid (entries (fst (get_week which_week st)))),
        snd (get_week which_week st))"
    by (simp add: count_valid_entries_def count_loop_filter split: prod.splits)
qed

text \<open>
  The amended C7 at a week of two entries, one complete and one whose audio blob is
  \<open>None\<close>: the count is 1.
\<close>

theorem entry_valid_iff_keys_witness:
  "entry_valid entry_x \<and> \<not> entry_valid (entry_x(''mp3'' \<mapsto> PNone))
   \<and> fst (count_valid_entries False
        (state_of (week_of [entry_x, entry_x(''mp3'' \<mapsto> PNone)] []))) = 1"
proof -
  have v: "entry_valid entry_x"
    using entry_valid_iff_keys [of entry_x False "state_of (week_of [] [])"]
    by (simp add: entry_x_def)
  have n: "\<not> entry_valid (entry_x(''mp3'' \<mapsto> PNone))"
    using entry_valid_iff_keys [of "entry_x(''mp3'' \<mapsto> PNone)" False "state_of (week_of [] [])"]
    by simp
  have c: "fst (count_valid_entries False
        (state_of (week_of [entry_x, entry_x(''mp3'' \<mapsto> PNone)] []))) = 1"
    using entry_valid_iff_keys
      [of entry_x False "state_of (week_of [entry_x, entry_x(''mp3'' \<mapsto> PNone)] [])"] v n
    by (simp add: get_week_state_of week_of_def)
  from v n c show ?thesis by simp
qed

section \<open>\<open>get_ranked_entrant_list\<close> never returns\<close>

lemma get_week_loaded:
  "current_week st = Some w \<Longrightarrow> current_week (snd (get_week b st)) = Some w"
  "next_week st = Some w \<Longrightarrow> next_week (snd (get_week b st)) = Some w"
  "log (snd (get_week b st)) = log st"
  by (simp_all add: get_week_def Let_def)

text \<open>
  C2: for every state and either week, \<open>get_ranked_entrant_list\<close> raises \<open>TypeError\<close>, at
  \<open>verify_votes(which_week)\<close>. The state it leaves is the one \<open>get_week\<close> left: nothing is
  logged, and a week that was loaded is as it was, its entries and votes included.
\<close>

theorem get_ranked_entrant_list_TypeError:
  "get_ranked_entrant_list which_week st = (Inl TypeError, snd (get_week which_week st))
   \<and> log (snd (get_ranked_entrant_list which_week st)) = log st
   \<and> (\<forall>w. current_week st = Some w \<longrightarrow>
          current_week (snd (get_ranked_entrant_list which_week st)) = Some w)
   \<and> (\<forall>w. next_week st = Some w \<longrightarrow>
          next_week (snd (get_ranked_entrant_list which_week st)) = Some w)"
proof -
  have run: "get_ranked_entrant_list which_week st = (Inl TypeError, snd (get_week which_week st))"
    by (simp add: get_ranked_entrant_list_def split: prod.splits)
  then show ?thesis by (simp add: get_week_loaded)
qed

theorem get_ranked_entrant_list_TypeError_witness:
  "current_week (state_of (week_of [entry_x] [ballot [rate ''x'' 3]]))
     = Some (week_of [entry_x] [ballot [rate ''x'' 3]])
   \<and> get_ranked_entrant_list False (state_of (week_of [entry_x] [ballot [rate ''x'' 3]]))
     = (Inl TypeError, state_of (week_of [entry_x] [ballot [rate ''x'' 3]]))"
  using get_ranked_entrant_list_TypeError
    [of False "state_of (week_of [entry_x] [ballot [rate ''x'' 3]])"]
  by (simp add: get_week_state_of) (simp add: state_of_def)

text \<open>
  C1 fails on the code. Scenario A of the specification, one entry and one voter who rates
  it 5, should return the entry with placement 1; the call raises \<open>TypeError\<close> and returns
  no list. The statements after \<open>verify_votes\<close>, run on a week without a valid entry, raise
  \<open>IndexError\<close> at \<open>entry_pool.pop(0)\<close> where the claim promises a list of 0 entries.
\<close>

theorem ranking_scenario_raises:
  "fst (get_ranked_entrant_list False (state_of (week_of [entry_x] [ballot [rate ''x'' 5]])))
     = Inl TypeError
   \<and> fst (rank_week (week_of [] [])) = Inl IndexError"
  by (simp add: get_ranked_entrant_list_def get_week_state_of rank_week_def week_of_def
        blank_week_def elim_loop.simps)

section \<open>Properties of \<open>verify_votes\<close>\<close>

lemma fraud_log_append: "fraud_log (xs @ ys) = fraud_log xs @ fraud_log ys"
  by (simp add: fraud_log_def)

lemma list_remove_member:
  "x \<in> set xs \<Longrightarrow> \<exists>ys. list_remove x xs = Inr ys \<and> mset xs = add_mset x (mset ys)"
  by (induction xs) auto

lemma ratings_loop_accept:
  assumes "i < length rs" 
    and "uv (uid, entryUUID (rs ! i), voteParam (rs ! i)) = None \<and> rating (rs ! i) \<le> 5 \<and> rating (rs ! i) \<ge> 0"
  shows "ratings_loop uid i rs uv lg = ratings_loop uid (Suc i) rs (uv((uid, entryUUID (rs ! i), voteParam (rs ! i)) \<mapsto> (rating (rs ! i) \<noteq> 0))) lg"
  by (subst ratings_loop.simps) (simp add: Let_def assms)
lemma ratings_loop_reject:
  assumes "i < length rs" 
    and "\<not> (uv (uid, entryUUID (rs ! i), voteParam (rs ! i)) = None \<and> rating (rs ! i) \<le> 5 \<and> rating (rs ! i) \<ge> 0)"
    and "list_remove (rs ! i) rs = Inr rs1"
  shows "ratings_loop uid i rs uv lg = ratings_loop uid (Suc i) rs1 uv (lg @ [FraudDetected, SusRating (rs ! i)])"
  by (subst ratings_loop.simps) (simp only: Let_def assms if_True if_False sum.case)
lemma ratings_loop_end:
  "\<not> i < length rs \<Longrightarrow> ratings_loop uid i rs uv lg = Inr (rs, uv, lg)"
  by (subst ratings_loop.simps) simp

lemma ratings_loop_returns:
  "\<exists>rs' uv' removed. ratings_loop uid i rs uv lg = Inr (rs', uv', lg @ fraud_log removed)
      \<and> mset rs = mset rs' + mset removed"
proof (induction "length rs - i" arbitrary: i rs uv lg rule: less_induct)
  case less
  show ?case
  proof (cases "i < length rs")
    case False
    then have "ratings_loop uid i rs uv lg = Inr (rs, uv, lg @ fraud_log []) \<and> mset rs = mset rs + mset []"
      by (simp add: ratings_loop_end fraud_log_def)
    then show ?thesis by (intro exI)
  next
    case True
    let ?r = "rs ! i"
    show ?thesis
    proof (cases "uv (uid, entryUUID ?r, voteParam ?r) = None \<and> rating ?r \<le> 5 \<and> rating ?r \<ge> 0")
      case ok: True
      have "length rs - Suc i < length rs - i" using True by simp
      from less [OF this] show ?thesis
        unfolding ratings_loop_accept [of i rs uv uid lg, OF True ok] .
    next
      case bad: False
      from True have mem: "?r \<in> set rs" by simp
      from list_remove_member [OF mem] obtain rs1 where rm: "list_remove ?r rs = Inr rs1"
        and ms: "mset rs = add_mset ?r (mset rs1)"
        by (elim exE conjE)
      from list_remove_length [OF rm] have "length rs1 - Suc i < length rs - i" using True by simp
      from less [OF this, of uv "lg @ [FraudDetected, SusRating ?r]"]
      obtain rs' uv' removed where
        run: "ratings_loop uid (Suc i) rs1 uv (lg @ [FraudDetected, SusRating ?r])
                = Inr (rs', uv', (lg @ [FraudDetected, SusRating ?r]) @ fraud_log removed)"
        and ms1: "mset rs1 = mset rs' + mset removed"
        by (elim exE conjE)
      have "(lg @ [FraudDetected, SusRating ?r]) @ fraud_log removed = lg @ fraud_log (?r # removed)"
        by (simp add: fraud_log_def)
      with run have "ratings_loop uid i rs uv lg = Inr (rs', uv', lg @ fraud_log (?r # removed))"
        by (simp only: ratings_loop_reject [of i rs uv uid rs1 lg, OF True bad rm])
      moreover from ms ms1 have "mset rs = mset rs' + mset (?r # removed)" by simp
      ultimately show ?thesis by (intro exI conjI)
    qed
  qed
qed


lemma votes_loop_returns:
  "\<exists>vs' uv' removed. votes_loop vs uv lg = Inr (vs', uv', lg @ fraud_log removed)
      \<and> map userID vs' = map userID vs
      \<and> mset (concat (map ratings vs)) = mset (concat (map ratings vs')) + mset removed"
proof (induction vs arbitrary: uv lg)
  case Nil
  have "votes_loop [] uv lg = Inr ([], uv, lg @ fraud_log [])
     \<and> map userID [] = map userID ([] :: vote list)
     \<and> mset (concat (map ratings [])) = mset (concat (map ratings [])) + mset []"
    by (simp add: fraud_log_def)
  then show ?case by (intro exI)
next
  case (Cons v vs)
  from ratings_loop_returns [of "userID v" 0 "ratings v" uv lg]
  obtain rs1 uv1 rem1 where
    r1: "ratings_loop (userID v) 0 (ratings v) uv lg = Inr (rs1, uv1, lg @ fraud_log rem1)"
    and m1: "mset (ratings v) = mset rs1 + mset rem1"
    by (elim exE conjE)
  from Cons.IH [of uv1 "lg @ fraud_log rem1"]
  obtain vs2 uv2 rem2 where
    r2: "votes_loop vs uv1 (lg @ fraud_log rem1) = Inr (vs2, uv2, (lg @ fraud_log rem1) @ fraud_log rem2)"
    and u2: "map userID vs2 = map userID vs"
    and m2: "mset (concat (map ratings vs)) = mset (concat (map ratings vs2)) + mset rem2"
    by (elim exE conjE)
  have "votes_loop (v # vs) uv lg = Inr (v\<lparr>ratings := rs1\<rparr> # vs2, uv2, lg @ fraud_log (rem1 @ rem2))"
    by (simp add: r1 r2 fraud_log_append)
  moreover have "map userID (v\<lparr>ratings := rs1\<rparr> # vs2) = map userID (v # vs)"
    using u2 by simp
  moreover have "mset (concat (map ratings (v # vs)))
      = mset (concat (map ratings (v\<lparr>ratings := rs1\<rparr> # vs2))) + mset (rem1 @ rem2)"
    using m1 m2 by simp
  ultimately show ?case by (intro exI conjI)
qed

text \<open>
  C9: for every week, \<open>verify_votes(week)\<close> returns without an exception. The other keys
  of the week are as before, the key \<open>votes\<close> is there afterwards, and is the empty list
  with nothing logged when it was absent. The voters are the same, and the ratings before
  the call are the surviving ratings together with the rejected ones, each of which was
  logged with its two records.
\<close>

theorem verify_votes_never_raises:
  "\<exists>week' removed.
      verify_votes (PyWeek week) = Inr (week', fraud_log removed)
    \<and> week' \<lparr>votes := votes week\<rparr> = week
    \<and> votes week' \<noteq> None
    \<and> (votes week = None \<longrightarrow> votes week' = Some [] \<and> removed = [])
    \<and> map userID (week_votes week') = map userID (week_votes week)
    \<and> mset (concat (map ratings (week_votes week)))
        = mset (concat (map ratings (week_votes week'))) + mset removed"
proof (cases "votes week")
  case None
  then have "verify_votes (PyWeek week) = Inr (week\<lparr>votes := Some []\<rparr>, fraud_log [])"
    by (simp add: fraud_log_def)
  with None show ?thesis
    by (intro exI [of _ "week\<lparr>votes := Some []\<rparr>"] exI [of _ "[]"]) (simp add: week_votes_def)
next
  case (Some vs)
  from votes_loop_returns [of vs Map.empty "[]"]
  obtain vs' uv' removed where
    run: "votes_loop vs Map.empty [] = Inr (vs', uv', [] @ fraud_log removed)"
    and u: "map userID vs' = map userID vs"
    and m: "mset (concat (map ratings vs)) = mset (concat (map ratings vs')) + mset removed"
    by (elim exE conjE)
  from Some run have "verify_votes (PyWeek week) = Inr (week\<lparr>votes := Some vs'\<rparr>, fraud_log removed)"
    by simp
  with Some u m show ?thesis
    by (intro exI [of _ "week\<lparr>votes := Some vs'\<rparr>"] exI [of _ removed]) (simp add: week_votes_def)
qed


text \<open>
  C9 at a week without the key \<open>votes\<close>, and at a ballot whose second rating repeats the
  triple of the first.
\<close>

theorem verify_votes_never_raises_witness:
  "votes (blank_week False) = None
   \<and> verify_votes (PyWeek (blank_week False)) = Inr ((blank_week False)\<lparr>votes := Some []\<rparr>, [])
   \<and> verify_votes (PyWeek (week_of [] [ballot [rate ''x'' 3, rate ''x'' 4]]))
       = Inr (week_of [] [ballot [rate ''x'' 3]], fraud_log [rate ''x'' 4])"
proof -
  have absent: "verify_votes (PyWeek (blank_week False))
      = Inr ((blank_week False)\<lparr>votes := Some []\<rparr>, [])"
    using verify_votes_never_raises [of "blank_week False"]
    by (simp add: blank_week_def)
  have dup: "verify_votes (PyWeek (week_of [] [ballot [rate ''x'' 3, rate ''x'' 4]]))
       = Inr (week_of [] [ballot [rate ''x'' 3]], fraud_log [rate ''x'' 4])"
    by (simp add: week_of_def ballot_def rate_def ratings_loop.simps fraud_log_def)
  from absent dup show ?thesis by (simp add: blank_week_def)
qed

text \<open>
  C4 fails on the code. One ballot rates the same entry and parameter 3, 4 and 9. The 4 is
  rejected as a duplicate and removed while the loop iterates the list, so the iterator
  skips the 9: it survives, out of \<open>[0,5]\<close> and with the triple of the surviving 3.
\<close>

theorem verify_votes_keeps_bad_rating:
  "verify_votes (PyWeek (week_of [] [ballot [rate ''x'' 3, rate ''x'' 4, rate ''x'' 9]]))
     = Inr (week_of [] [ballot [rate ''x'' 3, rate ''x'' 9]],
            [FraudDetected, SusRating (rate ''x'' 4)])"
  by (simp add: week_of_def ballot_def rate_def ratings_loop.simps)

text \<open>
  C5 fails on the code. One ballot rates an entry 6 and 7: the first run rejects the 6 and
  skips the 7, the second run on the result rejects the 7 and logs two more records.
\<close>

theorem verify_votes_second_run_removes:
  "verify_votes (PyWeek (week_of [] [ballot [rate ''x'' 6, rate ''x'' 7]]))
     = Inr (week_of [] [ballot [rate ''x'' 7]], [FraudDetected, SusRating (rate ''x'' 6)])
   \<and> verify_votes (PyWeek (week_of [] [ballot [rate ''x'' 7]]))
     = Inr (week_of [] [ballot []], [FraudDetected, SusRating (rate ''x'' 7)])"
  by (simp add: week_of_def ballot_def rate_def ratings_loop.simps)

section \<open>Properties of the rounding\<close>

text \<open>
  \<open>binade\<close> is the binary exponent, and \<open>round_double x\<close> is a multiple of the spacing of
  the doubles at \<open>x\<close> that lies within half that spacing of \<open>x\<close>.
\<close>

lemma power_int_pos2: "(0::rat) < 2 powi k"
  by (simp add: zero_less_power_int)

lemma bitlen_bounds_rat:
  assumes "0 < n"
  shows "2 powi (bitlen n - 1) \<le> (of_int n :: rat)" "(of_int n :: rat) < 2 powi bitlen n"
proof -
  from assms have b1: "1 \<le> bitlen n" by (auto simp: bitlen_alt_def)
  from bitlen_bounds [OF assms]
  have lo: "2 ^ nat (bitlen n - 1) \<le> n" and hi: "n < 2 ^ nat (bitlen n)" by simp_all
  from lo have "(of_int (2 ^ nat (bitlen n - 1)) :: rat) \<le> of_int n" by (simp only: of_int_le_iff)
  then show "2 powi (bitlen n - 1) \<le> (of_int n :: rat)"
    using b1 by (simp add: power_int_def)
  from hi have "(of_int n :: rat) < of_int (2 ^ nat (bitlen n))" by (simp only: of_int_less_iff)
  then show "(of_int n :: rat) < 2 powi bitlen n"
    using b1 by (simp add: power_int_def)
qed

lemma binade_bounds:
  assumes "x \<noteq> 0"
  shows "2 powi binade x \<le> \<bar>x\<bar> \<and> \<bar>x\<bar> < 2 powi (binade x + 1)"
proof -
  obtain n d where q: "quotient_of \<bar>x\<bar> = (n, d)" by (cases "quotient_of \<bar>x\<bar>")
  from quotient_of_denom_pos [OF q] have d: "0 < d" .
  from quotient_of_div [OF q] have x: "\<bar>x\<bar> = of_int n / of_int d" .
  from assms have "0 < \<bar>x\<bar>" by simp
  with x d have n: "0 < n" by (simp add: zero_less_divide_iff)
  let ?k = "bitlen n - bitlen d"
  note bn = bitlen_bounds_rat [OF n]
  note bd = bitlen_bounds_rat [OF d]
  have dpos: "(0::rat) < of_int d" using d by simp
  have "of_int n / of_int d < 2 powi bitlen n / (of_int d :: rat)"
    using bn(2) dpos by (simp add: divide_strict_right_mono)
  also have "\<dots> \<le> 2 powi bitlen n / 2 powi (bitlen d - 1)"
    using bd(1) dpos by (intro divide_left_mono) (simp_all add: power_int_pos2 mult_pos_pos less_imp_le)
  also have "\<dots> = 2 powi (?k + 1)"
    by (simp add: power_int_diff [symmetric] algebra_simps)
  finally have up: "\<bar>x\<bar> < 2 powi (?k + 1)" by (simp add: x)
  have "2 powi (?k - 1) = 2 powi (bitlen n - 1) / (2 powi bitlen d :: rat)"
    by (simp add: power_int_diff [symmetric] algebra_simps)
  also have "\<dots> < 2 powi (bitlen n - 1) / of_int d"
    using bd(2) dpos by (intro divide_strict_left_mono) (simp_all add: power_int_pos2 mult_pos_pos)
  also have "\<dots> \<le> of_int n / of_int d"
    using bn(1) dpos by (simp add: divide_right_mono less_imp_le)
  finally have low: "2 powi (?k - 1) < \<bar>x\<bar>" by (simp add: x)
  show ?thesis
  proof (cases "2 powi ?k \<le> \<bar>x\<bar>")
    case True
    then have "binade x = ?k" by (simp add: binade_def q)
    with True up show ?thesis by simp
  next
    case False
    then have "binade x = ?k - 1" by (simp add: binade_def q)
    with False low show ?thesis by (simp add: less_imp_le)
  qed
qed

lemma round_half_even_near: "\<bar>of_int (round_half_even y) - y\<bar> \<le> 1 / 2"
proof -
  have "of_int \<lfloor>y\<rfloor> \<le> y" "y < of_int \<lfloor>y\<rfloor> + 1" by linarith+
  then show ?thesis
    by (auto simp: round_half_even_def Let_def abs_le_iff)
qed

lemma abs_scaled: "0 < u \<Longrightarrow> \<bar>m * u - x\<bar> = \<bar>m - x / u\<bar> * (u :: rat)"
proof -
  assume u: "0 < u"
  then have "m * u - x = (m - x / u) * u" by (simp add: field_simps)
  then have "\<bar>m * u - x\<bar> = \<bar>m - x / u\<bar> * \<bar>u\<bar>" by (simp only: abs_mult)
  with u show ?thesis by simp
qed

lemma round_double_nearest:
  assumes "x \<noteq> 0"
  shows "\<exists>m. round_double x = of_int m * 2 powi (max (binade x) (- 1022) - 52)
           \<and> \<bar>round_double x - x\<bar> \<le> 2 powi (max (binade x) (- 1022) - 52) / 2"
proof -
  let ?u = "2 powi (max (binade x) (- 1022) - 52) :: rat"
  let ?m = "round_half_even (x / ?u)"
  have u: "0 < ?u" by (rule power_int_pos2)
  have rd: "round_double x = of_int ?m * ?u"
    using assms by (simp add: round_double_def Let_def)
  have "\<bar>of_int ?m * ?u - x\<bar> = \<bar>of_int ?m - x / ?u\<bar> * ?u"
    using u by (rule abs_scaled)
  also have "\<dots> \<le> 1 / 2 * ?u"
    using round_half_even_near [of "x / ?u"] u by (intro mult_right_mono) simp_all
  finally have "\<bar>round_double x - x\<bar> \<le> ?u / 2" by (simp add: rd)
  with rd show ?thesis by blast
qed

section \<open>Properties of the normalization\<close>

lemma extent_loop_bounds:
  "extent_loop rs (mn, mx) = (mn', mx') \<Longrightarrow>
     mn' \<le> mn \<and> mx \<le> mx'
     \<and> (\<forall>q\<in>set rs. rating q \<noteq> 0 \<longrightarrow> mn' \<le> rating q \<and> rating q \<le> mx')
     \<and> (mn' = mn \<or> (\<exists>q\<in>set rs. rating q \<noteq> 0 \<and> rating q = mn'))
     \<and> (mx' = mx \<or> (\<exists>q\<in>set rs. rating q \<noteq> 0 \<and> rating q = mx'))"
proof (induction rs arbitrary: mn mx)
  case Nil
  then show ?case by simp
next
  case (Cons r rs)
  show ?case
  proof (cases "rating r = 0")
    case True
    with Cons.prems have "extent_loop rs (mn, mx) = (mn', mx')" by simp
    from Cons.IH [OF this] True show ?thesis by auto
  next
    case False
    let ?mx1 = "if rating r > mx then rating r else mx"
    let ?mn1 = "if rating r < mn then rating r else mn"
    from False Cons.prems have "extent_loop rs (?mn1, ?mx1) = (mn', mx')"
      by (simp add: Let_def)
    from Cons.IH [OF this] False show ?thesis
      by (auto split: if_splits)
  qed
qed

text \<open>
  The floats that the division and the multiplication return for the differences that
  occur on a ballot with ratings from 1 to 5.
\<close>

lemma round_double_small:
  "round_double 1 = 1" "round_double 2 = 2" "round_double 3 = 3" "round_double 4 = 4"
  "round_double 5 = 5"
  by code_simp+

lemma below_overflow: "\<bar>x\<bar> \<le> 5 \<Longrightarrow> \<not> 2 powi 1024 \<le> \<bar>x :: rat\<bar>"
proof -
  assume x: "\<bar>x\<bar> \<le> 5"
  have "(2 :: rat) ^ 3 \<le> 2 ^ 1024" by (rule power_increasing) simp_all
  then have "(8 :: rat) \<le> 2 powi 1024" by (simp add: power_int_def)
  with x show ?thesis by linarith
qed

lemma float_of_int_small:
  "float_of_int 1 = Inr 1" "float_of_int 2 = Inr 2" "float_of_int 3 = Inr 3"
  "float_of_int 4 = Inr 4" "float_of_int 5 = Inr 5"
  unfolding float_of_int_def by (simp_all add: round_double_small below_overflow)

lemma float_quot5_table:
  "float_quot5 1 1 = 5"
  "float_quot5 1 2 = 5 / 2"
  "float_quot5 2 2 = 5"
  "float_quot5 1 3 = 3752999689475413 / 2251799813685248"
  "float_quot5 2 3 = 3752999689475413 / 1125899906842624"
  "float_quot5 3 3 = 5"
  "float_quot5 1 4 = 5 / 4"
  "float_quot5 2 4 = 5 / 2"
  "float_quot5 3 4 = 15 / 4"
  "float_quot5 4 4 = 5"
  "float_quot5 1 5 = 1"
  "float_quot5 2 5 = 2"
  "float_quot5 3 5 = 3"
  "float_quot5 4 5 = 4"
  "float_quot5 5 5 = 5"
  by code_simp+

lemma float_quot5_cases:
  assumes "1 \<le> a" "a \<le> b" "b \<le> 5"
  shows "float_of_int a = Inr (of_int a) \<and> float_of_int b = Inr (of_int b)
    \<and> 0 \<le> float_quot5 (of_int a) (of_int b) \<and> float_quot5 (of_int a) (of_int b) \<le> 5
    \<and> (a = b \<longrightarrow> float_quot5 (of_int a) (of_int b) = 5)
    \<and> (a = 1 \<longrightarrow> float_quot5 (of_int a) (of_int b) =
          (if b = 3 then 3752999689475413 / 2251799813685248 else 5 / of_int b))"
proof -
  from assms have "a = 1 \<or> a = 2 \<or> a = 3 \<or> a = 4 \<or> a = 5" by arith
  moreover from assms have "b = 1 \<or> b = 2 \<or> b = 3 \<or> b = 4 \<or> b = 5" by arith
  ultimately show ?thesis using assms(2)
    by (elim disjE; simp add: float_of_int_small float_quot5_table)
qed

lemma normalized_in_range:
  assumes range: "\<forall>q\<in>set (ratings v). 0 \<le> rating q \<and> rating q \<le> 5"
    and r: "r \<in> set (ratings v)" and nz: "rating r \<noteq> 0"
  shows "\<exists>mn mx n.
      minimum (get_extents v) = Some mn \<and> maximum (get_extents v) = Some mx
    \<and> (\<forall>q\<in>set (ratings v). rating q \<noteq> 0 \<longrightarrow> mn \<le> rating q \<and> rating q \<le> mx)
    \<and> (\<exists>q\<in>set (ratings v). rating q \<noteq> 0 \<and> rating q = mn)
    \<and> (\<exists>q\<in>set (ratings v). rating q \<noteq> 0 \<and> rating q = mx)
    \<and> 1 \<le> mx - (mn - 1)
    \<and> normalized (get_extents v) r = Inr n
    \<and> n = round_double
          (round_double (of_int (rating r - (mn - 1)) / of_int (mx - (mn - 1))) * 5)
    \<and> 0 \<le> n \<and> n \<le> 5
    \<and> (rating r = mx \<longrightarrow> n = 5)
    \<and> (rating r = mn \<longrightarrow>
          n = (if mx - mn = 2 then 3752999689475413 / 2251799813685248
               else 5 / of_int (mx - mn + 1)))"
proof -
  obtain mn mx where ext: "extent_loop (ratings v) (5, 1) = (mn, mx)"
    by (cases "extent_loop (ratings v) (5, 1)")
  note b = extent_loop_bounds [OF ext]
  from b have all: "\<forall>q\<in>set (ratings v). rating q \<noteq> 0 \<longrightarrow> mn \<le> rating q \<and> rating q \<le> mx"
    by blast
  from all r nz have rb: "mn \<le> rating r" "rating r \<le> mx" by auto
  from range r nz have r15: "1 \<le> rating r" "rating r \<le> 5" by auto
  have mn_att: "\<exists>q\<in>set (ratings v). rating q \<noteq> 0 \<and> rating q = mn"
  proof (cases "mn = 5")
    case True
    with rb r15 have "rating r = mn" by simp
    with r nz show ?thesis by blast
  next
    case False
    with b show ?thesis by blast
  qed
  have mx_att: "\<exists>q\<in>set (ratings v). rating q \<noteq> 0 \<and> rating q = mx"
  proof (cases "mx = 1")
    case True
    with rb r15 have "rating r = mx" by simp
    with r nz show ?thesis by blast
  next
    case False
    with b show ?thesis by blast
  qed
  from mn_att range have mn1: "1 \<le> mn" by force
  from mx_att range have mx5: "mx \<le> 5" by force
  define den where "den = mx - (mn - 1)"
  define num where "num = rating r - (mn - 1)"
  define n where "n = float_quot5 (of_int num) (of_int den)"
  from rb mn1 mx5 have nd: "1 \<le> num" "num \<le> den" "den \<le> 5"
    by (simp_all add: num_def den_def)
  note t = float_quot5_cases [OF nd]
  from nd have den1: "1 \<le> den" by simp
  have mins: "minimum (get_extents v) = Some mn" "maximum (get_extents v) = Some mx"
    by (simp_all add: get_extents_def ext)
  from t have fa: "float_of_int (rating r - (mn - 1)) = Inr (of_int num)"
    and fb: "float_of_int (mx - (mn - 1)) = Inr (of_int den)"
    by (simp_all add: num_def den_def)
  have norm: "normalized (get_extents v) r = Inr n"
    using den1 by (simp add: normalized_def mins fa fb n_def)
  have form: "n = round_double
          (round_double (of_int (rating r - (mn - 1)) / of_int (mx - (mn - 1))) * 5)"
    by (simp add: n_def float_quot5_def num_def den_def)
  from t have n05: "0 \<le> n" "n \<le> 5" by (simp_all add: n_def)
  have at_max: "rating r = mx \<longrightarrow> n = 5"
  proof
    assume "rating r = mx"
    then have "num = den" by (simp add: num_def den_def)
    with t show "n = 5" by (simp add: n_def)
  qed
  have at_min: "rating r = mn \<longrightarrow>
          n = (if mx - mn = 2 then 3752999689475413 / 2251799813685248
               else 5 / of_int (mx - mn + 1))"
  proof
    assume "rating r = mn"
    then have n1: "num = 1" by (simp add: num_def)
    have d3: "(den = 3) = (mx - mn = 2)" by (auto simp: den_def)
    have dd: "den = mx - mn + 1" by (simp add: den_def)
    from t n1 have "n = (if den = 3 then 3752999689475413 / 2251799813685248 else 5 / of_int den)"
      unfolding n_def by blast
    moreover have "(mx - mn + 1 = 3) = (mx - mn = 2)" by auto
    ultimately show "n = (if mx - mn = 2 then 3752999689475413 / 2251799813685248
               else 5 / of_int (mx - mn + 1))"
      by (simp only: dd)
  qed
  from mins all mn_att mx_att den1 [unfolded den_def] norm form n05 at_max at_min show ?thesis
    by (intro exI [of _ mn] exI [of _ mx] exI [of _ n] conjI)
qed

lemma score_ratings_returns:
  assumes "\<forall>r\<in>set rs. rating r \<noteq> 0 \<longrightarrow> (\<exists>n. normalized v r = Inr n)"
  shows "\<exists>scores1. score_ratings v rs scores = Inr scores1"
  using assms
proof (induction rs arbitrary: scores)
  case Nil
  show ?case by simp
next
  case (Cons r rs)
  then have rest: "\<And>sc. \<exists>scores1. score_ratings v rs sc = Inr scores1" by simp
  show ?case
  proof (cases "rating r = 0")
    case True
    then show ?thesis using rest by (simp add: Let_def)
  next
    case False
    with Cons.prems obtain n where n: "normalized v r = Inr n" by auto
    show ?thesis
    proof (cases "scores (entryUUID r)")
      case None
      with False n show ?thesis using rest by (simp add: Let_def)
    next
      case (Some l)
      with False n show ?thesis using rest by (simp add: Let_def)
    qed
  qed
qed

lemma score_votes_returns:
  assumes "\<forall>v\<in>set vs. \<forall>q\<in>set (ratings v). 0 \<le> rating q \<and> rating q \<le> 5"
  shows "\<exists>scores1. score_votes (map get_extents vs) scores = Inr scores1"
  using assms
proof (induction vs arbitrary: scores)
  case Nil
  show ?case by simp
next
  case (Cons v vs)
  have rs: "ratings (get_extents v) = ratings v"
    by (simp add: get_extents_def split: prod.splits)
  from Cons.prems have range: "\<forall>q\<in>set (ratings v). 0 \<le> rating q \<and> rating q \<le> 5" by simp
  have "\<forall>r\<in>set (ratings v). rating r \<noteq> 0 \<longrightarrow> (\<exists>n. normalized (get_extents v) r = Inr n)"
  proof (intro ballI impI)
    fix r assume "r \<in> set (ratings v)" "rating r \<noteq> 0"
    from normalized_in_range [OF range this]
    show "\<exists>n. normalized (get_extents v) r = Inr n" by blast
  qed
  from score_ratings_returns [OF this]
  obtain sc1 where "score_ratings (get_extents v) (ratings v) scores = Inr sc1" by blast
  with Cons.IH [of sc1] Cons.prems show ?case by (simp add: rs)
qed

text \<open>
  C6, as the claim states it, fails. On the ballot with the ratings 2, 4 and 0 the
  minimum is 2 and the maximum 4, and the normalized value of the minimum-rated rating
  is the float \<open>1.6666666666666665\<close>: the quotient \<open>1.0 / 3.0\<close> is rounded before it is
  multiplied by 5. It is not \<open>5 / (4 - 2 + 1)\<close>.
\<close>

theorem normalized_min_not_exact:
  "minimum (get_extents (ballot [rate ''x'' 2, rate ''y'' 4, rate ''z'' 0])) = Some 2
   \<and> maximum (get_extents (ballot [rate ''x'' 2, rate ''y'' 4, rate ''z'' 0])) = Some 4
   \<and> normalized (get_extents (ballot [rate ''x'' 2, rate ''y'' 4, rate ''z'' 0])) (rate ''x'' 2)
       = Inr (3752999689475413 / 2251799813685248)
   \<and> (3752999689475413 / 2251799813685248 :: rat) \<noteq> 5 / of_int (4 - 2 + 1)"
  by (simp add: ballot_def rate_def get_extents_def normalized_def float_of_int_small
        float_quot5_table)

text \<open>
  C6, amended: on a ballot whose ratings are all in \<open>[0,5]\<close>, after the extent scan
  \<open>minimum\<close> and \<open>maximum\<close> are the least and the greatest non-zero rating of the ballot.
  For each of its non-zero ratings the denominator \<open>maximum - (minimum - 1)\<close> is at least
  1, so the division does not raise, and the normalized value is the float that
  \<open>((rating - (minimum - 1)) / (maximum - (minimum - 1))) * 5\<close> gives with the quotient and
  the product rounded to the nearest double. It lies in \<open>[0,5]\<close> and is exactly 5 at a
  maximum-rated rating. At a minimum-rated one it is exactly
  \<open>5 / (maximum - minimum + 1)\<close>, except where \<open>maximum - minimum = 2\<close>: there it is
  \<open>3752999689475413 / 2^51\<close>, the float \<open>1.6666666666666665\<close>.
\<close>

theorem normalized_bounds:
  assumes "\<forall>q\<in>set (ratings v). 0 \<le> rating q \<and> rating q \<le> 5"
    and "r \<in> set (ratings v)" and "rating r \<noteq> 0"
  shows "\<exists>mn mx n.
      minimum (get_extents v) = Some mn \<and> maximum (get_extents v) = Some mx
    \<and> (\<forall>q\<in>set (ratings v). rating q \<noteq> 0 \<longrightarrow> mn \<le> rating q \<and> rating q \<le> mx)
    \<and> (\<exists>q\<in>set (ratings v). rating q \<noteq> 0 \<and> rating q = mn)
    \<and> (\<exists>q\<in>set (ratings v). rating q \<noteq> 0 \<and> rating q = mx)
    \<and> 1 \<le> mx - (mn - 1)
    \<and> normalized (get_extents v) r = Inr n
    \<and> n = round_double
          (round_double (of_int (rating r - (mn - 1)) / of_int (mx - (mn - 1))) * 5)
    \<and> 0 \<le> n \<and> n \<le> 5
    \<and> (rating r = mx \<longrightarrow> n = 5)
    \<and> (rating r = mn \<longrightarrow>
          n = (if mx - mn = 2 then 3752999689475413 / 2251799813685248
               else 5 / of_int (mx - mn + 1)))"
  using assms by (rule normalized_in_range)

text \<open>
  The amended C6 on the ballot with the ratings 1, 5 and 3, at its minimum-rated and at
  its maximum-rated rating.
\<close>

theorem normalized_bounds_witness:
  "minimum (get_extents (ballot [rate ''x'' 1, rate ''y'' 5, rate ''z'' 3])) = Some 1
   \<and> maximum (get_extents (ballot [rate ''x'' 1, rate ''y'' 5, rate ''z'' 3])) = Some 5
   \<and> normalized (get_extents (ballot [rate ''x'' 1, rate ''y'' 5, rate ''z'' 3])) (rate ''x'' 1)
       = Inr 1
   \<and> normalized (get_extents (ballot [rate ''x'' 1, rate ''y'' 5, rate ''z'' 3])) (rate ''y'' 5)
       = Inr 5"
proof -
  have ext: "minimum (get_extents (ballot [rate ''x'' 1, rate ''y'' 5, rate ''z'' 3])) = Some 1"
    "maximum (get_extents (ballot [rate ''x'' 1, rate ''y'' 5, rate ''z'' 3])) = Some 5"
    by (simp_all add: ballot_def rate_def get_extents_def)
  have lo: "normalized (get_extents (ballot [rate ''x'' 1, rate ''y'' 5, rate ''z'' 3]))
      (rate ''x'' 1) = Inr 1"
    using normalized_bounds
      [of "ballot [rate ''x'' 1, rate ''y'' 5, rate ''z'' 3]" "rate ''x'' 1"] ext
    by (auto simp: ballot_def rate_def)
  have hi: "normalized (get_extents (ballot [rate ''x'' 1, rate ''y'' 5, rate ''z'' 3]))
      (rate ''y'' 5) = Inr 5"
    using normalized_bounds
      [of "ballot [rate ''x'' 1, rate ''y'' 5, rate ''z'' 3]" "rate ''y'' 5"] ext
    by (auto simp: ballot_def rate_def)
  from ext lo hi show ?thesis by simp
qed

section \<open>The final scores\<close>

text \<open>
  C8 fails on the code. One valid entry whose only rating is 0: the scoring loop makes
  \<open>scores["x"]\<close> the empty list, so \<open>e["uuid"] in scores\<close> holds and
  \<open>statistics.mean([])\<close> raises \<open>StatisticsError\<close>; the entry gets no \<open>voteScore\<close>. The
  whole function raises \<open>TypeError\<close> before that, at \<open>verify_votes(which_week)\<close>.
\<close>

theorem abstained_entry_gets_no_score:
  "rank_week (week_of [entry_x] [ballot [rate ''x'' 0]])
     = (Inl StatisticsError, week_of [entry_x] [get_extents (ballot [rate ''x'' 0])])
   \<and> get_ranked_entrant_list False (state_of (week_of [entry_x] [ballot [rate ''x'' 0]]))
     = (Inl TypeError, state_of (week_of [entry_x] [ballot [rate ''x'' 0]]))"
  by (simp add: get_ranked_entrant_list_def get_week_state_of rank_week_def week_of_def
        ballot_def rate_def get_extents_def entry_x_valid entry_x_uuid scores_get_def mean_def)

section \<open>Properties of the elimination loop\<close>

lemma scored_vote_score: "scored (es ! i) \<Longrightarrow> vote_score (es ! i) = Inr (score_key es i)"
  by (auto simp: scored_def score_key_def split: sum.splits)

lemma sort_keys_scored:
  "\<forall>i\<in>set pool. scored (es ! i) \<Longrightarrow> sort_keys es pool = Inr (map (score_key es) pool)"
  by (induction pool) (simp_all add: scored_vote_score)

lemma sort_keys_Inr:
  "sort_keys es pool = Inr ks \<Longrightarrow> (\<forall>i\<in>set pool. scored (es ! i)) \<and> ks = map (score_key es) pool"
proof (induction pool arbitrary: ks)
  case Nil
  then show ?case by simp
next
  case (Cons i pool)
  then show ?case
    by (auto simp: scored_def score_key_def split: sum.splits)
qed

lemma insort_key_decorated:
  "insort_key fst (f x, x) (map (\<lambda>i. (f i, i)) ys) = map (\<lambda>i. (f i, i)) (insort_key f x ys)"
  by (induction ys) simp_all

lemma sort_key_decorated:
  "sort_key fst (map (\<lambda>i. (f i, i)) xs) = map (\<lambda>i. (f i, i)) (sort_key f xs)"
  by (induction xs) (simp_all add: insort_key_decorated)

lemma zip_map_self: "zip (map f xs) xs = map (\<lambda>i. (f i, i)) xs"
  by (induction xs) simp_all

lemma sorted_by_voteScore_scored:
  "\<forall>i\<in>set pool. scored (es ! i) \<Longrightarrow>
     sorted_by_voteScore es pool = Inr (sort_key (score_key es) pool)"
  by (simp add: sorted_by_voteScore_def sort_keys_scored zip_map_self sort_key_decorated comp_def)

lemma sorted_by_voteScore_Inr:
  assumes "sorted_by_voteScore es pool = Inr pool1"
  shows "(\<forall>i\<in>set pool. scored (es ! i)) \<and> pool1 = sort_key (score_key es) pool"
proof -
  from assms obtain ks where ks: "sort_keys es pool = Inr ks"
    by (auto simp: sorted_by_voteScore_def split: sum.splits)
  from sort_keys_Inr [OF ks] have sc: "\<forall>i\<in>set pool. scored (es ! i)" by simp
  from sorted_by_voteScore_scored [OF sc] assms sc show ?thesis by simp
qed

lemma raw_sums_returns:
  "entryA ''uuid'' \<noteq> None \<Longrightarrow> entryB ''uuid'' \<noteq> None \<Longrightarrow>
     \<exists>s. raw_sums entryA entryB rs acc = Inr s"
proof (induction rs arbitrary: acc)
  case Nil
  show ?case by (cases acc) simp
next
  case (Cons r rs)
  obtain sa sb where acc: "acc = (sa, sb)" by (cases acc)
  from Cons.prems obtain ua ub where u: "entryA ''uuid'' = Some ua" "entryB ''uuid'' = Some ub"
    by auto
  show ?case unfolding acc using Cons.IH [OF Cons.prems] by (simp add: u)
qed

lemma count_prefs_returns:
  assumes "entryA ''uuid'' \<noteq> None" "entryB ''uuid'' \<noteq> None"
  shows "\<exists>p. count_prefs entryA entryB vs acc = Inr p"
proof (induction vs arbitrary: acc)
  case Nil
  show ?case by (cases acc) simp
next
  case (Cons v vs)
  obtain pa pb where acc: "acc = (pa, pb)" by (cases acc)
  from raw_sums_returns [where entryA=entryA and entryB=entryB, OF assms] obtain sa sb
    where s: "raw_sums entryA entryB (ratings v) (0, 0) = Inr (sa, sb)" by fastforce
  show ?case unfolding acc using Cons.IH by (simp add: s)
qed

lemma raw_sums_eq:
  assumes "entryA ''uuid'' = Some (PStr ua)" "entryB ''uuid'' = Some (PStr ub)" "ua \<noteq> ub"
  shows "raw_sums entryA entryB rs (sa, sb) =
     Inr (sa + sum_list (map rating (filter (\<lambda>r. entryUUID r = ua) rs)),
          sb + sum_list (map rating (filter (\<lambda>r. entryUUID r = ub) rs)))"
  using assms(3) by (induction rs arbitrary: sa sb) (simp_all add: assms(1,2))

lemma count_prefs_eq:
  assumes "entryA ''uuid'' = Some (PStr ua)" "entryB ''uuid'' = Some (PStr ub)" "ua \<noteq> ub"
  shows "count_prefs entryA entryB vs (pa, pb) = Inr (pa + prefers ua ub vs, pb + prefers ub ua vs)"
proof (induction vs arbitrary: pa pb)
  case Nil
  show ?case by (simp add: prefers_def)
next
  case (Cons v vs)
  have s: "raw_sums entryA entryB (ratings v) (0, 0) = Inr (raw_sum ua v, raw_sum ub v)"
    by (simp add: raw_sums_eq [where entryA=entryA and entryB=entryB, OF assms] raw_sum_def)
  show ?case by (simp add: s Cons.IH) (simp add: prefers_def)
qed

lemma elim_step_sorted:
  assumes "sorted_by_voteScore es pool = Inr (a # b # rest)"
    and "count_prefs (es ! a) (es ! b) vs (0, 0) = Inr (pa, pb)"
  shows "elim_step es vs pool ranked =
     Inr (if pa \<ge> pb then (b # rest, ranked @ [a]) else (a # rest, ranked @ [b]))"
  by (simp add: elim_step_def assms)

lemma entry_valid_uuid: "entry_valid e \<Longrightarrow> e ''uuid'' \<noteq> None"
  by (simp add: entry_valid_keys)

lemma elim_step_ok:
  assumes ok: "\<forall>i\<in>set pool. entry_valid (es ! i) \<and> scored (es ! i)"
    and len: "length pool > 1"
  shows "\<exists>x pool1. elim_step es vs pool ranked = Inr (pool1, ranked @ [x])
           \<and> mset pool = add_mset x (mset pool1)"
proof -
  let ?s = "sort_key (score_key es) pool"
  from ok have srt: "sorted_by_voteScore es pool = Inr ?s"
    by (simp add: sorted_by_voteScore_scored)
  have "length ?s = length pool" by simp
  with len obtain a b rest where s: "?s = a # b # rest"
    by (cases ?s; cases "tl ?s") auto
  have ms: "mset (a # b # rest) = mset pool"
    using mset_sort [of "score_key es" pool] by (simp only: s)
  then have "set (a # b # rest) = set pool" by (rule mset_eq_setD)
  then have "a \<in> set pool" "b \<in> set pool" by auto
  with ok have u: "(es ! a) ''uuid'' \<noteq> None" "(es ! b) ''uuid'' \<noteq> None"
    by (simp_all add: entry_valid_uuid)
  from count_prefs_returns [where entryA="es ! a" and entryB="es ! b", OF u]
  obtain pa pb where p: "count_prefs (es ! a) (es ! b) vs (0, 0) = Inr (pa, pb)"
    by fastforce
  have step: "elim_step es vs pool ranked =
     Inr (if pa \<ge> pb then (b # rest, ranked @ [a]) else (a # rest, ranked @ [b]))"
    using srt s p by (simp add: elim_step_sorted)
  show ?thesis
  proof (cases "pa \<ge> pb")
    case True
    with step have "elim_step es vs pool ranked = Inr (b # rest, ranked @ [a])" by simp
    moreover from ms have "mset pool = add_mset a (mset (b # rest))" by simp
    ultimately show ?thesis by (intro exI conjI)
  next
    case False
    with step have "elim_step es vs pool ranked = Inr (a # rest, ranked @ [b])" by simp
    moreover from ms have "mset pool = add_mset b (mset (a # rest))"
      by (simp add: add_mset_commute)
    ultimately show ?thesis by (intro exI conjI)
  qed
qed

lemma elim_loop_stop:
  "\<not> 1 < length pool \<Longrightarrow> elim_loop es vs pool ranked = Inr (pool, ranked)"
  by (subst elim_loop.simps) simp

lemma elim_loop_step:
  "1 < length pool \<Longrightarrow> elim_step es vs pool ranked = Inr (pool1, ranked1) \<Longrightarrow>
     elim_loop es vs pool ranked = elim_loop es vs pool1 ranked1"
  by (subst elim_loop.simps) simp

lemma elim_iterations_stop:
  "\<not> 1 < length pool \<Longrightarrow> elim_iterations es vs pool ranked = 0"
  by (subst elim_iterations.simps) simp

lemma elim_iterations_step:
  "1 < length pool \<Longrightarrow> elim_step es vs pool ranked = Inr (pool1, ranked1) \<Longrightarrow>
     elim_iterations es vs pool ranked = Suc (elim_iterations es vs pool1 ranked1)"
  by (subst elim_iterations.simps) simp

lemma elim_iterations_raise:
  "elim_step es vs pool ranked = Inl x \<Longrightarrow> elim_iterations es vs pool ranked = 0"
  by (subst elim_iterations.simps) simp

lemma elim_iterations_bound: "elim_iterations es vs pool ranked \<le> length pool - 1"
proof (induction "length pool" arbitrary: pool ranked rule: less_induct)
  case less
  show ?case
  proof (cases "1 < length pool")
    case False
    then show ?thesis by (simp add: elim_iterations_stop)
  next
    case True
    show ?thesis
    proof (cases "elim_step es vs pool ranked")
      case (Inl x)
      then show ?thesis by (simp add: elim_iterations_raise)
    next
      case (Inr pr)
      obtain pool1 ranked1 where pr: "pr = (pool1, ranked1)" by (cases pr)
      from Inr pr have st: "elim_step es vs pool ranked = Inr (pool1, ranked1)" by simp
      from elim_step_length [OF st] have l: "Suc (length pool1) = length pool" by simp
      then have "length pool1 < length pool" by simp
      from less [OF this, of ranked1] l True show ?thesis
        by (simp add: elim_iterations_step [OF True st])
    qed
  qed
qed

lemma elim_loop_ok:
  assumes "\<forall>i\<in>set pool. entry_valid (es ! i) \<and> scored (es ! i)"
  shows "\<exists>pool1 ranked1. elim_loop es vs pool ranked = Inr (pool1, ranked1)
           \<and> length pool1 = min 1 (length pool)
           \<and> length ranked1 = length ranked + (length pool - 1)
           \<and> mset pool1 + mset ranked1 = mset pool + mset ranked
           \<and> elim_iterations es vs pool ranked = length pool - 1"
  using assms
proof (induction "length pool" arbitrary: pool ranked rule: less_induct)
  case less
  show ?case
  proof (cases "1 < length pool")
    case False
    then have "elim_loop es vs pool ranked = Inr (pool, ranked)
        \<and> length pool = min 1 (length pool)
        \<and> length ranked = length ranked + (length pool - 1)
        \<and> mset pool + mset ranked = mset pool + mset ranked
        \<and> elim_iterations es vs pool ranked = length pool - 1"
      by (simp add: elim_loop_stop elim_iterations_stop)
    then show ?thesis by (intro exI)
  next
    case True
    from elim_step_ok [OF less.prems True, of vs ranked]
    obtain x pool1 where st: "elim_step es vs pool ranked = Inr (pool1, ranked @ [x])"
      and ms: "mset pool = add_mset x (mset pool1)"
      by (elim exE conjE)
    from arg_cong [OF ms, of size] have l: "length pool = Suc (length pool1)"
      by simp
    from arg_cong [OF ms, of set_mset] have "set pool = insert x (set pool1)"
      by simp
    with less.prems have ok1: "\<forall>i\<in>set pool1. entry_valid (es ! i) \<and> scored (es ! i)" by blast
    from l have "length pool1 < length pool" by simp
    from less.hyps [OF this ok1, of "ranked @ [x]"]
    obtain pool2 ranked2 where
      run: "elim_loop es vs pool1 (ranked @ [x]) = Inr (pool2, ranked2)"
      and l2: "length pool2 = min 1 (length pool1)"
      and r2: "length ranked2 = length (ranked @ [x]) + (length pool1 - 1)"
      and m2: "mset pool2 + mset ranked2 = mset pool1 + mset (ranked @ [x])"
      and it: "elim_iterations es vs pool1 (ranked @ [x]) = length pool1 - 1"
      by (elim exE conjE)
    have "elim_loop es vs pool ranked = Inr (pool2, ranked2)"
      using run by (simp add: elim_loop_step [OF True st])
    moreover have "length pool2 = min 1 (length pool)" using l2 l True by simp
    moreover have "length ranked2 = length ranked + (length pool - 1)" using r2 l True by simp
    moreover have "mset pool2 + mset ranked2 = mset pool + mset ranked" using m2 ms by simp
    moreover have "elim_iterations es vs pool ranked = length pool - 1"
      using it l True by (simp add: elim_iterations_step [OF True st])
    ultimately show ?thesis by (intro exI conjI)
  qed
qed

lemma entry_y_valid: "entry_valid entry_y"
  by (simp add: entry_valid_keys entry_y_def entry_x_def)

lemma entry_y_uuid: "entry_y ''uuid'' = Some (PStr ''y'')"
  by (simp add: entry_y_def)

lemma scored_xy_facts:
  "vote_score scored_x = Inr 3" "vote_score scored_y = Inr (3752999689475413 / 1125899906842624)"
  "scored_x ''uuid'' = Some (PStr ''x'')" "scored_y ''uuid'' = Some (PStr ''y'')"
  "entry_valid scored_x" "entry_valid scored_y"
  by (simp_all add: scored_x_def scored_y_def vote_score_def entry_x_uuid entry_y_uuid
        entry_valid_keys entry_x_def entry_y_def)

lemma sorted_tie: "sorted_by_voteScore [scored_x, scored_y] [0, 1] = Inr [0, 1]"
  by (simp add: sorted_by_voteScore_def scored_xy_facts)

lemma prefs_tie: "count_prefs scored_x scored_y votes_tie (0, 0) = Inr (1, 1)"
  by (simp add: scored_xy_facts votes_tie_def ballot_def rate_def)

text \<open>
  What one iteration does: with the sorted pool \<open>a # b # rest\<close>, the entry at \<open>a\<close> has the
  lowest \<open>voteScore\<close> and the entry at \<open>b\<close> the second lowest; for entries with different
  identifiers the two counters are the numbers of ballots whose raw rating sum is strictly
  greater for the one, and for the other; and \<open>pop(0)\<close> takes the entry at \<open>a\<close> when
  \<open>preferEntryA >= preferEntryB\<close>, \<open>pop(1)\<close> the entry at \<open>b\<close> otherwise.
\<close>

lemma elim_step_pops:
  assumes srt: "sorted_by_voteScore es pool = Inr (a # b # rest)"
    and ua: "(es ! a) ''uuid'' = Some (PStr ua)"
    and ub: "(es ! b) ''uuid'' = Some (PStr ub)"
    and ne: "ua \<noteq> ub"
  shows "mset (a # b # rest) = mset pool
    \<and> vote_score (es ! a) = Inr (score_key es a) \<and> vote_score (es ! b) = Inr (score_key es b)
    \<and> score_key es a \<le> score_key es b
    \<and> (\<forall>i\<in>set rest. score_key es b \<le> score_key es i)
    \<and> count_prefs (es ! a) (es ! b) vs (0, 0) = Inr (prefers ua ub vs, prefers ub ua vs)
    \<and> elim_step es vs pool ranked =
         Inr (if prefers ua ub vs \<ge> prefers ub ua vs then (b # rest, ranked @ [a])
              else (a # rest, ranked @ [b]))"
proof -
  from sorted_by_voteScore_Inr [OF srt]
  have sc: "\<forall>i\<in>set pool. scored (es ! i)"
    and s: "a # b # rest = sort_key (score_key es) pool" by simp_all
  have ms: "mset (a # b # rest) = mset pool"
    using mset_sort [of "score_key es" pool] by (simp only: s)
  then have "set (a # b # rest) = set pool" by (rule mset_eq_setD)
  then have "a \<in> set pool" "b \<in> set pool" by auto
  with sc have va: "vote_score (es ! a) = Inr (score_key es a)"
    and vb: "vote_score (es ! b) = Inr (score_key es b)"
    by (simp_all add: scored_vote_score)
  have "sorted (map (score_key es) (sort_key (score_key es) pool))"
    by (rule sorted_sort_key)
  then have "sorted (map (score_key es) (a # b # rest))" by (simp only: s)
  then have ord: "score_key es a \<le> score_key es b" "\<forall>i\<in>set rest. score_key es b \<le> score_key es i"
    by simp_all
  have p: "count_prefs (es ! a) (es ! b) vs (0, 0) = Inr (prefers ua ub vs, prefers ub ua vs)"
    using count_prefs_eq [where entryA="es ! a" and entryB="es ! b", OF ua ub ne, of vs 0 0]
    by simp
  have step: "elim_step es vs pool ranked =
         Inr (if prefers ua ub vs \<ge> prefers ub ua vs then (b # rest, ranked @ [a])
              else (a # rest, ranked @ [b]))"
    by (rule elim_step_sorted [OF srt p])
  from ms va vb ord p step show ?thesis by (intro conjI)
qed

lemma entry_valid_voteScore: "entry_valid (e(''voteScore'' \<mapsto> v)) = entry_valid e"
  by (simp add: entry_valid_keys)

lemma scored_voteScore:
  "scored (e(''voteScore'' \<mapsto> PFloat m))" "scored (e(''voteScore'' \<mapsto> PInt n))"
  by (simp_all add: scored_def vote_score_def)

text \<open>
  The pool that the loop over \<open>week["entries"]\<close> builds holds valid entries with their
  scores written: the pools of the elimination loop are of this kind.
\<close>

lemma write_scores_pool:
  assumes "write_scores scores is es pool = (Inr pool1, es1)"
    and "distinct is" and "\<forall>i\<in>set is. i < length es"
    and "\<forall>i\<in>set pool. i \<notin> set is \<and> i < length es \<and> entry_valid (es ! i) \<and> scored (es ! i)"
  shows "length es1 = length es
    \<and> (\<forall>i\<in>set pool1. i < length es1 \<and> entry_valid (es1 ! i) \<and> scored (es1 ! i))"
  using assms
proof (induction "is" arbitrary: es pool)
  case Nil
  then show ?case by simp
next
  case (Cons i "is")
  let ?e = "es ! i"
  from Cons.prems have i: "i < length es" "i \<notin> set is" "distinct is"
    and rest: "\<forall>j\<in>set is. j < length es" by simp_all
  show ?case
  proof (cases "entry_valid ?e")
    case False
    with Cons.prems(1) have run: "write_scores scores is es pool = (Inr pool1, es1)"
      by (simp add: Let_def)
    from Cons.prems(4) have "\<forall>j\<in>set pool. j \<notin> set is \<and> j < length es
        \<and> entry_valid (es ! j) \<and> scored (es ! j)" by simp
    from Cons.IH [OF run i(3) rest this] show ?thesis .
  next
    case True
    from True obtain u where u: "?e ''uuid'' = Some u"
      using entry_valid_uuid by fastforce
    have "\<exists>v. write_scores scores is (es[i := ?e(''voteScore'' \<mapsto> v)]) (pool @ [i]) = (Inr pool1, es1)
           \<and> scored (?e(''voteScore'' \<mapsto> v))"
    proof (cases "scores_get scores u")
      case None
      with Cons.prems(1) True u show ?thesis
        by (auto simp: Let_def scored_voteScore)
    next
      case (Some l)
      with Cons.prems(1) True u show ?thesis
        by (auto simp: Let_def scored_voteScore split: sum.splits)
    qed
    then obtain v where run: "write_scores scores is (es[i := ?e(''voteScore'' \<mapsto> v)]) (pool @ [i])
        = (Inr pool1, es1)" and sv: "scored (?e(''voteScore'' \<mapsto> v))"
      by blast
    let ?es = "es[i := ?e(''voteScore'' \<mapsto> v)]"
    have rest': "\<forall>j\<in>set is. j < length ?es" using rest by simp
    have "\<forall>j\<in>set (pool @ [i]). j \<notin> set is \<and> j < length ?es
        \<and> entry_valid (?es ! j) \<and> scored (?es ! j)"
    proof
      fix j assume j: "j \<in> set (pool @ [i])"
      show "j \<notin> set is \<and> j < length ?es \<and> entry_valid (?es ! j) \<and> scored (?es ! j)"
      proof (cases "j = i")
        case True
        with i sv \<open>entry_valid ?e\<close> show ?thesis by (simp add: entry_valid_voteScore)
      next
        case False
        with j have "j \<in> set pool" by simp
        with Cons.prems(4) False show ?thesis by auto
      qed
    qed
    from Cons.IH [OF run i(3) rest' this] show ?thesis by auto
  qed
qed

lemma write_scores_all:
  assumes "write_scores scores [0..<length es] es [] = (Inr pool1, es1)"
  shows "\<forall>i\<in>set pool1. entry_valid (es1 ! i) \<and> scored (es1 ! i)"
  using write_scores_pool [OF assms] by simp

text \<open>
  The statements after \<open>verify_votes\<close> on two concrete weeks: scenario A of the
  specification, and the week of the two entries and the two ballots that disagree.
\<close>

lemma mean_values:
  "mean [5] = Inr 5" "mean [5, 1] = Inr 3"
  "mean [3752999689475413 / 2251799813685248, 5] = Inr (3752999689475413 / 1125899906842624)"
  by code_simp+

lemma rank_week_scenario_A:
  "fst (rank_week (week_of [entry_x] [ballot [rate ''x'' 5]]))
     = Inr [entry_x(''voteScore'' \<mapsto> PFloat 5, ''votePlacement'' \<mapsto> PInt 1)]"
  by (simp add: rank_week_def week_of_def ballot_def rate_def get_extents_def normalized_def
        float_of_int_small float_quot5_table entry_x_valid entry_x_uuid scores_get_def
        mean_values elim_loop.simps Let_def)

lemma rank_week_tie:
  "fst (rank_week (week_of [entry_x, entry_y] votes_tie))
     = Inr [scored_x(''votePlacement'' \<mapsto> PInt 1), scored_y(''votePlacement'' \<mapsto> PInt 2)]"
  by (simp add: rank_week_def week_of_def votes_tie_def ballot_def rate_def get_extents_def
        normalized_def float_of_int_small float_quot5_table entry_x_valid entry_x_uuid
        entry_y_valid entry_y_uuid scores_get_def mean_values elim_loop.simps elim_step_def
        sorted_by_voteScore_def vote_score_def Let_def entry_valid_voteScore scored_x_def
        scored_y_def)

text \<open>
  C3 fails on the code. The pool holds entry 0 (\<open>x\<close>, score 3.0, the lowest: A) and entry 1
  (\<open>y\<close>, score 3.333333333333333: B); one ballot prefers A and one prefers B, a tie. The
  claim has B removed from the pool and appended, the tie-break favoring the entry with
  the higher score, as the comment before the test says. The code sorts ascending and
  runs \<open>entry_pool.pop(0)\<close>: A, the entry with the lower score, is removed and appended, B
  stays in the pool, and the returned order puts A first with placement 1.
\<close>

theorem elim_step_tie_removes_A:
  "sorted_by_voteScore [scored_x, scored_y] [0, 1] = Inr [0, 1]
   \<and> count_prefs scored_x scored_y votes_tie (0, 0) = Inr (1, 1)
   \<and> elim_step [scored_x, scored_y] votes_tie [0, 1] [] = Inr ([1], [0])
   \<and> fst (rank_week (week_of [entry_x, entry_y] votes_tie))
       = Inr [scored_x(''votePlacement'' \<mapsto> PInt 1), scored_y(''votePlacement'' \<mapsto> PInt 2)]"
  using sorted_tie prefs_tie rank_week_tie by (simp add: elim_step_def)

text \<open>
  C10: the elimination loop terminates. It never runs more than \<open>len(entry_pool) - 1\<close>
  iterations, and an iteration that completes removes exactly one entry from the pool and
  appends one to \<open>ranked_entries\<close>. On a pool of valid entries with their scores written,
  no iteration raises: the loop returns after exactly \<open>len(entry_pool) - 1\<close> iterations
  (none for an empty pool), with at most one entry left in the pool and every entry of the
  pool either left or ranked.
\<close>

theorem elim_loop_terminates:
  "elim_iterations es vs pool ranked \<le> length pool - 1
   \<and> (\<forall>pool1 ranked1. elim_step es vs pool ranked = Inr (pool1, ranked1) \<longrightarrow>
         Suc (length pool1) = length pool \<and> length ranked1 = Suc (length ranked))
   \<and> ((\<forall>i\<in>set pool. entry_valid (es ! i) \<and> scored (es ! i)) \<longrightarrow>
        (\<exists>pool1 ranked1. elim_loop es vs pool ranked = Inr (pool1, ranked1)
           \<and> length pool1 = min 1 (length pool)
           \<and> length ranked1 = length ranked + (length pool - 1)
           \<and> mset pool1 + mset ranked1 = mset pool + mset ranked
           \<and> elim_iterations es vs pool ranked = length pool - 1))"
proof (intro conjI allI impI)
  show "elim_iterations es vs pool ranked \<le> length pool - 1"
    by (rule elim_iterations_bound)
next
  fix pool1 ranked1
  assume st: "elim_step es vs pool ranked = Inr (pool1, ranked1)"
  from elim_step_length [OF st]
  show "Suc (length pool1) = length pool" "length ranked1 = Suc (length ranked)" by simp_all
next
  assume "\<forall>i\<in>set pool. entry_valid (es ! i) \<and> scored (es ! i)"
  then show "\<exists>pool1 ranked1. elim_loop es vs pool ranked = Inr (pool1, ranked1)
           \<and> length pool1 = min 1 (length pool)
           \<and> length ranked1 = length ranked + (length pool - 1)
           \<and> mset pool1 + mset ranked1 = mset pool + mset ranked
           \<and> elim_iterations es vs pool ranked = length pool - 1"
    by (rule elim_loop_ok)
qed

theorem elim_loop_terminates_witness:
  "elim_loop [scored_x, scored_y] votes_tie [0, 1] [] = Inr ([1], [0])
   \<and> elim_iterations [scored_x, scored_y] votes_tie [0, 1] [] = 1"
proof -
  have st: "elim_step [scored_x, scored_y] votes_tie [0, 1] [] = Inr ([1], [0])"
    using sorted_tie prefs_tie by (simp add: elim_step_def)
  have ok: "\<forall>i\<in>set [0, 1]. entry_valid ([scored_x, scored_y] ! i) \<and> scored ([scored_x, scored_y] ! i)"
    by (simp add: scored_xy_facts scored_def)
  have run: "elim_loop [scored_x, scored_y] votes_tie [0, 1] [] = Inr ([1], [0])"
    using st by (simp add: elim_loop.simps)
  from elim_loop_terminates [of "[scored_x, scored_y]" votes_tie "[0, 1]" "[]"] ok
  have "elim_iterations [scored_x, scored_y] votes_tie [0, 1] [] = 1" by auto
  with run show ?thesis by simp
qed

end
